theory Spec2Isabelle
  imports Complex_Main
begin

section \<open>Ordered dictionaries\<close>

text \<open>
  Python's \<open>OrderedDict\<close> is an association list with pairwise distinct keys, the
  oldest key first.  \<open>d.get(k)\<close> is \<open>map_of\<close>.  Item assignment keeps the position of
  a key that is present and appends a new key; \<open>pop(k, None)\<close> drops the key;
  \<open>move_to_end(k)\<close> moves a present key to the last position (the source calls it only
  on a key that it has just stored or just looked up, so its \<open>KeyError\<close> on an absent
  key cannot arise; the model leaves the list unchanged there).
\<close>

fun od_setitem :: "'k \<Rightarrow> 'v \<Rightarrow> ('k \<times> 'v) list \<Rightarrow> ('k \<times> 'v) list" where
  "od_setitem k v [] = [(k, v)]"
| "od_setitem k v (p # ps) = (if fst p = k then (k, v) # ps else p # od_setitem k v ps)"

definition od_pop :: "'k \<Rightarrow> ('k \<times> 'v) list \<Rightarrow> ('k \<times> 'v) list" where
  "od_pop k ps = filter (\<lambda>p. fst p \<noteq> k) ps"

definition od_move_to_end :: "'k \<Rightarrow> ('k \<times> 'v) list \<Rightarrow> ('k \<times> 'v) list" where
  "od_move_to_end k ps =
     (case map_of ps k of None \<Rightarrow> ps | Some v \<Rightarrow> od_pop k ps @ [(k, v)])"

section \<open>Query results and the result store of a session (services/session.py)\<close>

text \<open>
  \<open>datetime.utcnow()\<close> has microsecond resolution: a point in time is an integer number
  of microseconds, and \<open>timedelta(minutes = m)\<close> is \<open>m * 60000000\<close>.  Every operation
  takes the reading of the clock as its argument \<open>now\<close>; one call uses one reading.
\<close>

definition minutes :: "int \<Rightarrow> int" where
  "minutes m = m * 60000000"

record 'd QueryResult =
  data :: 'd
  created_at :: int
  last_accessed :: int
  size_bytes :: int

text \<open>
  \<open>QueryResult.__init__\<close>: the size is \<open>sys.getsizeof(str(data))\<close>, a function of the
  data alone; it is the parameter \<open>est\<close> of the model.
\<close>

definition QueryResult_init :: "('d \<Rightarrow> int) \<Rightarrow> 'd \<Rightarrow> int \<Rightarrow> 'd QueryResult" where
  "QueryResult_init est d now =
     \<lparr> data = d, created_at = now, last_accessed = now, size_bytes = est d \<rparr>"

definition is_expired :: "'d QueryResult \<Rightarrow> int \<Rightarrow> int \<Rightarrow> bool" where
  "is_expired r ttl now \<longleftrightarrow> now - created_at r > minutes ttl"

definition touch :: "'d QueryResult \<Rightarrow> int \<Rightarrow> 'd QueryResult" where
  "touch r now = r \<lparr> last_accessed := now \<rparr>"

record 'd QueryResultStore =
  results :: "(string \<times> 'd QueryResult) list"
  max_results :: int
  ttl_minutes :: int
  max_size_bytes :: int
  total_size_bytes :: int

definition QueryResultStore_init :: "int \<Rightarrow> int \<Rightarrow> int \<Rightarrow> 'd QueryResultStore" where
  "QueryResultStore_init mr ttl ms =
     \<lparr> results = [], max_results = mr, ttl_minutes = ttl, max_size_bytes = ms,
       total_size_bytes = 0 \<rparr>"

definition MAX_QUERY_RESULTS_PER_SESSION :: int where
  "MAX_QUERY_RESULTS_PER_SESSION = 50"

definition QUERY_RESULT_TTL_MINUTES :: int where
  "QUERY_RESULT_TTL_MINUTES = 5"

definition MAX_RESULT_SIZE_BYTES :: int where
  "MAX_RESULT_SIZE_BYTES = 10 * 1024 * 1024"

definition store_remove :: "'d QueryResultStore \<Rightarrow> string \<Rightarrow> 'd QueryResultStore" where
  "store_remove s qid =
     (case map_of (results s) qid of
        None \<Rightarrow> s
      | Some r \<Rightarrow> s \<lparr> results := od_pop qid (results s),
                     total_size_bytes := total_size_bytes s - size_bytes r \<rparr>)"

definition evict_oldest :: "'d QueryResultStore \<Rightarrow> 'd QueryResultStore" where
  "evict_oldest s =
     (case results s of [] \<Rightarrow> s | p # ps \<Rightarrow> store_remove s (fst p))"

definition evict_expired :: "'d QueryResultStore \<Rightarrow> int \<Rightarrow> 'd QueryResultStore" where
  "evict_expired s now =
     fold (\<lambda>qid s'. store_remove s' qid)
       (map fst (filter (\<lambda>p. is_expired (snd p) (ttl_minutes s) now) (results s))) s"

text \<open>
  The first loop of \<open>put\<close>, \<open>while len(self._results) >= self._max_results\<close>, does not
  end when \<open>max_results \<le> 0\<close> (evicting from an empty store changes nothing), so it is
  a partial function: \<open>None\<close> is a call that never returns.
\<close>

partial_function (option) evict_to_capacity ::
  "'d QueryResultStore \<Rightarrow> 'd QueryResultStore option" where
  "evict_to_capacity s =
     (if int (length (results s)) \<ge> max_results s
      then evict_to_capacity (evict_oldest s) else Some s)"

lemma length_od_pop_hd: "length (od_pop (fst p) (p # ps)) < Suc (length ps)"
  by (simp add: od_pop_def le_imp_less_Suc)

lemma length_evict_oldest:
  "results s \<noteq> [] \<Longrightarrow> length (results (evict_oldest s)) < length (results s)"
proof (cases "results s")
  case Nil
  assume "results s \<noteq> []"
  with Nil show ?thesis by simp
next
  case (Cons p ps)
  obtain k r where p: "p = (k, r)" by (cases p)
  show ?thesis
    using length_od_pop_hd [of p ps]
    by (simp add: evict_oldest_def store_remove_def Cons p)
qed

text \<open>
  The second loop, \<open>while total + size > max_size_bytes and self._results\<close>, stops at
  the latest when the store is empty.
\<close>

function evict_to_size :: "int \<Rightarrow> 'd QueryResultStore \<Rightarrow> 'd QueryResultStore" where
  "evict_to_size sz s =
     (if total_size_bytes s + sz > max_size_bytes s \<and> results s \<noteq> []
      then evict_to_size sz (evict_oldest s) else s)"
  by pat_completeness auto
termination
  by (relation "measure (\<lambda>(sz, s). length (results s))")
     (auto simp: length_evict_oldest)

declare evict_to_size.simps [simp del]

definition put ::
  "('d \<Rightarrow> int) \<Rightarrow> 'd QueryResultStore \<Rightarrow> int \<Rightarrow> string \<Rightarrow> 'd \<Rightarrow> 'd QueryResultStore option"
  where
  "put est s now query_id d =
     (let result = QueryResult_init est d now;
          s1 = evict_expired s now
      in case evict_to_capacity s1 of
           None \<Rightarrow> None
         | Some s2 \<Rightarrow>
             let s3 = evict_to_size (size_bytes result) s2;
                 s4 = s3 \<lparr> results := od_setitem query_id result (results s3),
                          total_size_bytes := total_size_bytes s3 + size_bytes result \<rparr>
             in Some (s4 \<lparr> results := od_move_to_end query_id (results s4) \<rparr>))"

definition get ::
  "'d QueryResultStore \<Rightarrow> int \<Rightarrow> string \<Rightarrow> 'd option \<times> 'd QueryResultStore" where
  "get s now query_id =
     (case map_of (results s) query_id of
        None \<Rightarrow> (None, s)
      | Some result \<Rightarrow>
          if is_expired result (ttl_minutes s) now
          then (None, store_remove s query_id)
          else (Some (data result),
                s \<lparr> results := od_move_to_end query_id
                       (od_setitem query_id (touch result now) (results s)) \<rparr>))"

definition clear :: "'d QueryResultStore \<Rightarrow> 'd QueryResultStore" where
  "clear s = s \<lparr> results := [], total_size_bytes := 0 \<rparr>"

text \<open>A sequence of \<open>put\<close> calls, each with its clock reading, key and data.\<close>

fun puts ::
  "('d \<Rightarrow> int) \<Rightarrow> 'd QueryResultStore \<Rightarrow> (int \<times> string \<times> 'd) list
     \<Rightarrow> 'd QueryResultStore option" where
  "puts est s [] = Some s"
| "puts est s ((now, qid, d) # ops) =
     (case put est s now qid d of None \<Rightarrow> None | Some s' \<Rightarrow> puts est s' ops)"

definition stored_bytes :: "'d QueryResultStore \<Rightarrow> int" where
  "stored_bytes s = sum_list (map (\<lambda>p. size_bytes (snd p)) (results s))"

text \<open>
  The bookkeeping the store aims at: keys are pairwise distinct and the tracked total is
  the sum of the sizes of the stored results.
\<close>

definition consistent :: "'d QueryResultStore \<Rightarrow> bool" where
  "consistent s \<longleftrightarrow>
     distinct (map fst (results s)) \<and> total_size_bytes s = stored_bytes s"

subsection \<open>Frame and length facts of the store operations\<close>

lemma store_remove_fields [simp]:
  "max_results (store_remove s k) = max_results s"
  "ttl_minutes (store_remove s k) = ttl_minutes s"
  "max_size_bytes (store_remove s k) = max_size_bytes s"
  by (simp_all add: store_remove_def split: option.split)

lemma evict_oldest_fields [simp]:
  "max_results (evict_oldest s) = max_results s"
  "ttl_minutes (evict_oldest s) = ttl_minutes s"
  "max_size_bytes (evict_oldest s) = max_size_bytes s"
  by (simp_all add: evict_oldest_def split: list.split)

lemma length_od_pop: "length (od_pop k ps) \<le> length ps"
  by (simp add: od_pop_def)

lemma length_store_remove: "length (results (store_remove s k)) \<le> length (results s)"
  by (simp add: store_remove_def length_od_pop split: option.split)

lemma length_evict_oldest_le: "length (results (evict_oldest s)) \<le> length (results s)"
proof (cases "results s")
  case Nil
  then show ?thesis by (simp add: evict_oldest_def)
next
  case (Cons p ps)
  then have "evict_oldest s = store_remove s (fst p)" by (simp add: evict_oldest_def)
  then show ?thesis by (simp add: length_store_remove)
qed

lemma evict_to_capacity_returns:
  "1 \<le> max_results s \<Longrightarrow>
   \<exists>s'. evict_to_capacity s = Some s' \<and> int (length (results s')) < max_results s'
     \<and> max_results s' = max_results s \<and> ttl_minutes s' = ttl_minutes s
     \<and> max_size_bytes s' = max_size_bytes s"
proof (induction "length (results s)" arbitrary: s rule: less_induct)
  case less
  show ?case
  proof (cases "int (length (results s)) \<ge> max_results s")
    case False
    then show ?thesis by (subst evict_to_capacity.simps) simp
  next
    case True
    with less.prems have ne: "results s \<noteq> []" by auto
    have "\<exists>s'. evict_to_capacity (evict_oldest s) = Some s'
        \<and> int (length (results s')) < max_results s'
        \<and> max_results s' = max_results (evict_oldest s)
        \<and> ttl_minutes s' = ttl_minutes (evict_oldest s)
        \<and> max_size_bytes s' = max_size_bytes (evict_oldest s)"
      using less.hyps [OF length_evict_oldest [OF ne]] less.prems by simp
    then show ?thesis using True by (subst evict_to_capacity.simps) simp
  qed
qed

lemma evict_to_size_fields [simp]:
  "max_results (evict_to_size sz s) = max_results s"
  "ttl_minutes (evict_to_size sz s) = ttl_minutes s"
  "max_size_bytes (evict_to_size sz s) = max_size_bytes s"
  by (induction sz s rule: evict_to_size.induct; subst evict_to_size.simps; simp)+

lemma length_evict_to_size: "length (results (evict_to_size sz s)) \<le> length (results s)"
proof (induction sz s rule: evict_to_size.induct)
  case (1 sz s)
  show ?case
    using 1 length_evict_oldest_le [of s]
    by (subst evict_to_size.simps) (auto simp: le_trans)
qed

lemma length_od_setitem: "length (od_setitem k v ps) \<le> Suc (length ps)"
  by (induction ps) auto

lemma length_od_move_to_end: "length (od_move_to_end k ps) \<le> length ps"
proof (cases "map_of ps k")
  case None
  then show ?thesis by (simp add: od_move_to_end_def)
next
  case (Some v)
  then have "(k, v) \<in> set ps" by (rule map_of_SomeD)
  then have "length (filter (\<lambda>p. fst p \<noteq> k) ps) < length ps"
    by (intro length_filter_less [of "(k, v)"]) auto
  then show ?thesis using Some by (simp add: od_move_to_end_def od_pop_def)
qed

lemma fold_store_remove_fields [simp]:
  "max_results (fold (\<lambda>qid s'. store_remove s' qid) ks s) = max_results s"
  "ttl_minutes (fold (\<lambda>qid s'. store_remove s' qid) ks s) = ttl_minutes s"
  "max_size_bytes (fold (\<lambda>qid s'. store_remove s' qid) ks s) = max_size_bytes s"
  by (induction ks arbitrary: s; simp)+

lemma evict_expired_fields [simp]:
  "max_results (evict_expired s now) = max_results s"
  "ttl_minutes (evict_expired s now) = ttl_minutes s"
  "max_size_bytes (evict_expired s now) = max_size_bytes s"
  by (simp_all add: evict_expired_def)

lemma put_count:
  assumes "1 \<le> max_results s"
  shows "\<exists>s'. put est s now qid d = Some s' \<and> int (length (results s')) \<le> max_results s'
     \<and> max_results s' = max_results s \<and> ttl_minutes s' = ttl_minutes s
     \<and> max_size_bytes s' = max_size_bytes s"
proof -
  from assms have "1 \<le> max_results (evict_expired s now)" by simp
  from evict_to_capacity_returns [OF this]
  obtain s2 where s2: "evict_to_capacity (evict_expired s now) = Some s2"
    and len2: "int (length (results s2)) < max_results s2"
    and f2: "max_results s2 = max_results s" "ttl_minutes s2 = ttl_minutes s"
      "max_size_bytes s2 = max_size_bytes s"
    by auto
  define r where "r = QueryResult_init est d now"
  define s3 where "s3 = evict_to_size (size_bytes r) s2"
  have len3: "int (length (results s3)) < max_results s"
    using len2 f2 length_evict_to_size [of "size_bytes r" s2] by (simp add: s3_def)
  have "length (od_move_to_end qid (od_setitem qid r (results s3))) \<le> Suc (length (results s3))"
    using length_od_move_to_end [of qid "od_setitem qid r (results s3)"]
      length_od_setitem [of qid r "results s3"] by simp
  with len3 have "int (length (od_move_to_end qid (od_setitem qid r (results s3)))) \<le> max_results s"
    by simp
  then show ?thesis
    using s2 f2 by (simp add: put_def Let_def r_def s3_def)
qed

subsection \<open>Bookkeeping of sizes under eviction and fresh insertion\<close>

lemma sum_od_pop:
  "distinct (map fst ps) \<Longrightarrow> map_of ps k = Some r \<Longrightarrow>
   sum_list (map f (od_pop k ps)) = sum_list (map f ps) - (f (k, r) :: int)"
proof (induction ps)
  case Nil
  then show ?case by simp
next
  case (Cons p ps)
  obtain k' r' where p: "p = (k', r')" by (cases p)
  show ?case
  proof (cases "k' = k")
    case True
    with Cons.prems p have "k \<notin> fst ` set ps" "r' = r" by auto
    then have "filter (\<lambda>q. fst q \<noteq> k) ps = ps" by (intro filter_True) auto
    with True p \<open>r' = r\<close> show ?thesis by (simp add: od_pop_def)
  next
    case False
    with Cons p show ?thesis by (simp add: od_pop_def)
  qed
qed

lemma distinct_od_pop: "distinct (map fst ps) \<Longrightarrow> distinct (map fst (od_pop k ps))"
  by (simp add: od_pop_def distinct_map_filter)

lemma keys_od_pop: "fst ` set (od_pop k ps) \<subseteq> fst ` set ps"
  by (auto simp: od_pop_def)

lemma store_remove_consistent: "consistent s \<Longrightarrow> consistent (store_remove s k)"
  by (auto simp: consistent_def store_remove_def stored_bytes_def distinct_od_pop sum_od_pop
      split: option.split)

lemma store_remove_keys: "fst ` set (results (store_remove s k)) \<subseteq> fst ` set (results s)"
  using keys_od_pop [of k "results s"] by (auto simp: store_remove_def split: option.split)

lemma evict_oldest_consistent: "consistent s \<Longrightarrow> consistent (evict_oldest s)"
  by (simp add: evict_oldest_def store_remove_consistent split: list.split)

lemma evict_oldest_keys: "fst ` set (results (evict_oldest s)) \<subseteq> fst ` set (results s)"
proof (cases "results s")
  case Nil
  then show ?thesis by (simp add: evict_oldest_def)
next
  case (Cons p ps)
  then have "evict_oldest s = store_remove s (fst p)" by (simp add: evict_oldest_def)
  then show ?thesis using store_remove_keys [of s "fst p"] by simp
qed

lemma fold_store_remove_inv:
  "consistent s \<Longrightarrow>
   consistent (fold (\<lambda>qid s'. store_remove s' qid) ks s) \<and>
   fst ` set (results (fold (\<lambda>qid s'. store_remove s' qid) ks s)) \<subseteq> fst ` set (results s)"
proof (induction ks arbitrary: s)
  case Nil
  then show ?case by simp
next
  case (Cons k ks)
  note ih = Cons.IH [OF store_remove_consistent [OF Cons.prems], of k]
  from ih have "consistent (fold (\<lambda>qid s'. store_remove s' qid) (k # ks) s)" by simp
  moreover have "fst ` set (results (fold (\<lambda>qid s'. store_remove s' qid) (k # ks) s))
      \<subseteq> fst ` set (results s)"
    using order_trans [OF conjunct2 [OF ih] store_remove_keys [of s k]] by simp
  ultimately show ?case by (rule conjI)
qed

lemma evict_expired_inv:
  "consistent s \<Longrightarrow> consistent (evict_expired s now) \<and>
     fst ` set (results (evict_expired s now)) \<subseteq> fst ` set (results s)"
  unfolding evict_expired_def by (rule fold_store_remove_inv)

lemma evict_to_capacity_inv:
  assumes "1 \<le> max_results s" and "consistent s"
  shows "\<exists>s'. evict_to_capacity s = Some s' \<and> consistent s' \<and>
     fst ` set (results s') \<subseteq> fst ` set (results s)"
  using assms
proof (induction "length (results s)" arbitrary: s rule: less_induct)
  case less
  show ?case
  proof (cases "int (length (results s)) \<ge> max_results s")
    case False
    then show ?thesis using less.prems by (subst evict_to_capacity.simps) simp
  next
    case True
    with less.prems have ne: "results s \<noteq> []" by auto
    have "\<exists>s'. evict_to_capacity (evict_oldest s) = Some s' \<and> consistent s' \<and>
        fst ` set (results s') \<subseteq> fst ` set (results (evict_oldest s))"
      using less.hyps [OF length_evict_oldest [OF ne]] less.prems
      by (simp add: evict_oldest_consistent)
    then obtain s' where s': "evict_to_capacity (evict_oldest s) = Some s'" "consistent s'"
      "fst ` set (results s') \<subseteq> fst ` set (results (evict_oldest s))" by auto
    from order_trans [OF s'(3) evict_oldest_keys [of s]] s'(1,2) True
    show ?thesis by (subst evict_to_capacity.simps) simp
  qed
qed

lemma evict_to_size_inv:
  "consistent s \<Longrightarrow> consistent (evict_to_size sz s) \<and>
     fst ` set (results (evict_to_size sz s)) \<subseteq> fst ` set (results s)"
proof (induction sz s rule: evict_to_size.induct)
  case (1 sz s)
  show ?case
  proof (cases "total_size_bytes s + sz > max_size_bytes s \<and> results s \<noteq> []")
    case True
    then have eq: "evict_to_size sz s = evict_to_size sz (evict_oldest s)"
      by (subst evict_to_size.simps) simp
    note ih = "1.IH" [OF True evict_oldest_consistent [OF "1.prems"]]
    show ?thesis
      unfolding eq using ih order_trans [OF conjunct2 [OF ih] evict_oldest_keys [of s]]
      by simp
  next
    case False
    then have "evict_to_size sz s = s" by (subst evict_to_size.simps) auto
    with "1.prems" show ?thesis by simp
  qed
qed

lemma evict_to_size_post:
  "total_size_bytes (evict_to_size sz s) + sz \<le> max_size_bytes s
     \<or> results (evict_to_size sz s) = []"
proof (induction sz s rule: evict_to_size.induct)
  case (1 sz s)
  show ?case
  proof (cases "total_size_bytes s + sz > max_size_bytes s \<and> results s \<noteq> []")
    case True
    then have eq: "evict_to_size sz s = evict_to_size sz (evict_oldest s)"
      by (subst evict_to_size.simps) simp
    from 1 True show ?thesis unfolding eq by simp
  next
    case False
    then have "evict_to_size sz s = s" by (subst evict_to_size.simps) auto
    with False show ?thesis by auto
  qed
qed

lemma od_setitem_fresh: "k \<notin> fst ` set ps \<Longrightarrow> od_setitem k v ps = ps @ [(k, v)]"
  by (induction ps) auto

lemma od_move_to_end_last:
  "k \<notin> fst ` set ps \<Longrightarrow> od_move_to_end k (ps @ [(k, v)]) = ps @ [(k, v)]"
proof -
  assume fresh: "k \<notin> fst ` set ps"
  then have "map_of ps k = None" by (simp add: map_of_eq_None_iff)
  then have m: "map_of (ps @ [(k, v)]) k = Some v" by (simp add: map_add_def)
  from fresh have "filter (\<lambda>p. fst p \<noteq> k) ps = ps" by (intro filter_True) auto
  with m show ?thesis by (simp add: od_move_to_end_def od_pop_def)
qed

lemma put_fresh:
  assumes mr: "1 \<le> max_results s" and c: "consistent s" and fresh: "qid \<notin> fst ` set (results s)"
  shows "\<exists>s'. put est s now qid d = Some s' \<and> consistent s' \<and>
     fst ` set (results s') \<subseteq> insert qid (fst ` set (results s)) \<and>
     (total_size_bytes s' \<le> max_size_bytes s \<or>
      results s' = [(qid, QueryResult_init est d now)] \<and> total_size_bytes s' = est d)"
proof -
  note e1 = evict_expired_inv [OF c, of now]
  from mr have "1 \<le> max_results (evict_expired s now)" by simp
  from evict_to_capacity_inv [OF this conjunct1 [OF e1]]
  obtain s2 where s2: "evict_to_capacity (evict_expired s now) = Some s2"
    and c2: "consistent s2"
    and k2: "fst ` set (results s2) \<subseteq> fst ` set (results (evict_expired s now))"
    by auto
  from evict_to_capacity_returns [OF \<open>1 \<le> max_results (evict_expired s now)\<close>] s2
  have f2: "max_size_bytes s2 = max_size_bytes s" by auto
  define r where "r = QueryResult_init est d now"
  define s3 where "s3 = evict_to_size (size_bytes r) s2"
  have sz: "size_bytes r = est d" by (simp add: r_def QueryResult_init_def)
  note e3 = evict_to_size_inv [OF c2, of "size_bytes r", folded s3_def]
  have k3: "fst ` set (results s3) \<subseteq> fst ` set (results s)"
    using e3 k2 e1 by blast
  with fresh have fresh3: "qid \<notin> fst ` set (results s3)" by blast
  have res: "od_move_to_end qid (od_setitem qid r (results s3)) = results s3 @ [(qid, r)]"
    by (simp add: od_setitem_fresh [OF fresh3] od_move_to_end_last [OF fresh3])
  define s' where "s' = s3 \<lparr> results := results s3 @ [(qid, r)],
       total_size_bytes := total_size_bytes s3 + size_bytes r \<rparr>"
  have p: "put est s now qid d = Some s'"
    using s2 res by (simp add: put_def Let_def r_def [symmetric] s3_def [symmetric] s'_def)
  have c': "consistent s'"
    using e3 fresh3 by (simp add: consistent_def s'_def stored_bytes_def)
  have k': "fst ` set (results s') \<subseteq> insert qid (fst ` set (results s))"
    using k3 by (auto simp: s'_def)
  have post: "total_size_bytes s3 + size_bytes r \<le> max_size_bytes s \<or> results s3 = []"
    using evict_to_size_post [of "size_bytes r" s2] f2 by (simp add: s3_def)
  have "total_size_bytes s' \<le> max_size_bytes s \<or>
      results s' = [(qid, r)] \<and> total_size_bytes s' = est d"
  proof (rule disjE [OF post])
    assume "total_size_bytes s3 + size_bytes r \<le> max_size_bytes s"
    then show ?thesis by (simp add: s'_def)
  next
    assume "results s3 = []"
    moreover from this e3 have "total_size_bytes s3 = 0"
      by (simp add: consistent_def stored_bytes_def)
    ultimately show ?thesis by (simp add: s'_def sz)
  qed
  with p c' k' show ?thesis by (auto simp: r_def)
qed

subsection \<open>Sequences of puts\<close>

lemma puts_count:
  "1 \<le> max_results s \<Longrightarrow> int (length (results s)) \<le> max_results s \<Longrightarrow>
   \<exists>s'. puts est s ops = Some s' \<and> int (length (results s')) \<le> max_results s'
     \<and> max_results s' = max_results s \<and> max_size_bytes s' = max_size_bytes s"
proof (induction ops arbitrary: s)
  case Nil
  then show ?case by simp
next
  case (Cons op ops)
  obtain now qid d where op: "op = (now, qid, d)" by (cases op)
  from put_count [OF Cons.prems(1), of est now qid d]
  obtain s1 where s1: "put est s now qid d = Some s1"
    "int (length (results s1)) \<le> max_results s1" "max_results s1 = max_results s"
    "max_size_bytes s1 = max_size_bytes s"
    by auto
  from Cons.IH [of s1] s1 Cons.prems(1) show ?case by (simp add: op)
qed

lemma puts_bytes:
  "1 \<le> max_results s \<Longrightarrow> consistent s \<Longrightarrow> ops \<noteq> [] \<Longrightarrow>
   distinct (map (\<lambda>x. fst (snd x)) ops) \<Longrightarrow>
   fst ` set (results s) \<inter> set (map (\<lambda>x. fst (snd x)) ops) = {} \<Longrightarrow>
   \<exists>s'. puts est s ops = Some s' \<and>
     (total_size_bytes s' \<le> max_size_bytes s \<or>
      results s' = [(fst (snd (last ops)), QueryResult_init est (snd (snd (last ops))) (fst (last ops)))]
        \<and> total_size_bytes s' = est (snd (snd (last ops))))"
proof (induction ops arbitrary: s)
  case Nil
  then show ?case by simp
next
  case (Cons op ops)
  obtain now qid d where op: "op = (now, qid, d)" by (cases op)
  from Cons.prems op have fresh: "qid \<notin> fst ` set (results s)" by auto
  from put_fresh [OF Cons.prems(1,2) fresh, of est now d]
  obtain s1 where s1: "put est s now qid d = Some s1" and c1: "consistent s1"
    and k1: "fst ` set (results s1) \<subseteq> insert qid (fst ` set (results s))"
    and b1: "total_size_bytes s1 \<le> max_size_bytes s \<or>
      results s1 = [(qid, QueryResult_init est d now)] \<and> total_size_bytes s1 = est d"
    by auto
  from put_count [OF Cons.prems(1), of est now qid d] s1
  have f1: "max_results s1 = max_results s" "max_size_bytes s1 = max_size_bytes s" by auto
  show ?case
  proof (cases "ops = []")
    case True
    with s1 b1 show ?thesis by (simp add: op)
  next
    case False
    have d: "distinct (map (\<lambda>x. fst (snd x)) ops)" using Cons.prems(4) by simp
    have a: "qid \<notin> (\<lambda>x. fst (snd x)) ` set ops" using Cons.prems(4) op by simp
    have b: "fst ` set (results s) \<inter> (\<lambda>x. fst (snd x)) ` set ops = {}"
      using Cons.prems(5) by auto
    have "fst ` set (results s1) \<inter> set (map (\<lambda>x. fst (snd x)) ops) = {}"
      unfolding set_map using k1 a b by blast
    from Cons.IH [OF _ c1 False d this] f1 Cons.prems(1)
    show ?thesis using s1 False by (simp add: op)
  qed
qed

lemma init_consistent: "consistent (QueryResultStore_init mr ttl ms)"
  by (simp add: consistent_def QueryResultStore_init_def stored_bytes_def)


text \<open>The equations that evaluate the store operations on concrete stores.\<close>

lemmas ev = put_def Let_def QueryResult_init_def QueryResultStore_init_def evict_expired_def
  is_expired_def minutes_def evict_to_capacity.simps evict_to_size.simps evict_oldest_def
  store_remove_def od_pop_def od_move_to_end_def stored_bytes_def


subsection \<open>Capacity of the result store\<close>

text \<open>
  C1 (as stated, refuted): the claim bounds the tracked total by \<open>max_size_bytes\<close> even
  after a put of a single result larger than \<open>max_size_bytes\<close>.  The size loop of
  \<open>put\<close> stops when the store is empty, so the oversized result is stored and the
  total exceeds the budget: with a budget of 100 bytes, one put of a 150-byte result
  leaves one entry and a total of 150.
\<close>

theorem oversized_put_counterexample:
  "\<exists>s'. puts (\<lambda>d::int. d) (QueryResultStore_init 50 5 100) [(0, ''q1'', 150)] = Some s' \<and>
     int (length (results s')) \<le> max_results s' \<and>
     \<not> total_size_bytes s' \<le> max_size_bytes s'"
  by (simp add: ev)


text \<open>
  C1 (amended): when \<open>max_results \<ge> 1\<close>, every sequence of puts on a new store returns,
  and the store then holds at most \<open>max_results\<close> entries.  When moreover the sequence
  is not empty and its keys are pairwise distinct, either the tracked total is at most
  \<open>max_size_bytes\<close>, or the store holds exactly the result of the last put and the
  total is that result's size.
\<close>

theorem put_capacity_invariant:
  assumes "1 \<le> mr"
  shows "\<exists>s'. puts est (QueryResultStore_init mr ttl ms) ops = Some s' \<and>
     int (length (results s')) \<le> mr \<and>
     (ops \<noteq> [] \<longrightarrow> distinct (map (\<lambda>x. fst (snd x)) ops) \<longrightarrow>
        total_size_bytes s' \<le> ms \<or>
        results s' = [(fst (snd (last ops)),
                       QueryResult_init est (snd (snd (last ops))) (fst (last ops)))]
          \<and> total_size_bytes s' = est (snd (snd (last ops))))"
proof -
  let ?s = "QueryResultStore_init mr ttl ms :: 'a QueryResultStore"
  have f: "max_results ?s = mr" "max_size_bytes ?s = ms" "results ?s = []"
    by (simp_all add: QueryResultStore_init_def)
  from assms f have m: "1 \<le> max_results ?s" "int (length (results ?s)) \<le> max_results ?s"
    by simp_all
  from puts_count [OF m, of est ops] f
  obtain s' where s': "puts est ?s ops = Some s'" "int (length (results s')) \<le> mr"
    by auto
  have "total_size_bytes s' \<le> ms \<or>
        results s' = [(fst (snd (last ops)),
                       QueryResult_init est (snd (snd (last ops))) (fst (last ops)))]
          \<and> total_size_bytes s' = est (snd (snd (last ops)))"
    if "ops \<noteq> []" "distinct (map (\<lambda>x. fst (snd x)) ops)"
    using puts_bytes [OF m(1) init_consistent that(1,2), of est] s' f by simp
  with s' show ?thesis by blast
qed


theorem put_capacity_invariant_witness:
  "(1::int) \<le> 2 \<and>
   (\<exists>s'. puts (\<lambda>d::int. d) (QueryResultStore_init 2 5 100) [(0, ''a'', 60), (1, ''b'', 150)] = Some s' \<and>
     int (length (results s')) \<le> 2 \<and>
     (total_size_bytes s' \<le> 100 \<or>
      results s' = [(''b'', QueryResult_init (\<lambda>d. d) 150 1)] \<and> total_size_bytes s' = 150))"
  using put_capacity_invariant [of 2 "\<lambda>d::int. d" 5 100 "[(0, ''a'', 60), (1, ''b'', 150)]"]
  by simp


subsection \<open>Size accounting when a key is overwritten\<close>

text \<open>
  C9: the claim says that the tracked total always equals the sum of the sizes of the
  stored results, also when a put replaces the result of a key that is present.  The
  item assignment in \<open>put\<close> replaces the old result without subtracting its size:
  two puts of a 100-byte result under the same key leave one stored result of 100 bytes
  and a tracked total of 200.
\<close>

theorem put_overwrite_double_counts:
  "\<exists>s'. puts (\<lambda>d::int. d) (QueryResultStore_init 50 5 10485760)
          [(0, ''q1'', 100), (1, ''q1'', 100)] = Some s' \<and>
     map fst (results s') = [''q1''] \<and>
     total_size_bytes s' = 200 \<and> stored_bytes s' = 100"
  by (simp add: ev)

subsection \<open>Expiry on access\<close>

lemma map_of_od_pop: "map_of (od_pop k ps) k = None"
  by (auto simp: od_pop_def map_of_eq_None_iff)


text \<open>
  C2: when \<open>get\<close> returns a value, the entry under that key is at most the time to live
  old at the clock reading of the call; when the entry is present and older than the
  time to live, \<open>get\<close> removes it and returns nothing.  Both hold for every store,
  whatever was or was not removed before the call.
\<close>

theorem get_ttl:
  "(get s now qid = (Some d, s') \<longrightarrow>
      (\<exists>r. map_of (results s) qid = Some r \<and> data r = d \<and>
           now - created_at r \<le> minutes (ttl_minutes s))) \<and>
   (map_of (results s) qid = Some r \<longrightarrow> now - created_at r > minutes (ttl_minutes s) \<longrightarrow>
      get s now qid = (None, store_remove s qid) \<and>
      map_of (results (store_remove s qid)) qid = None)"
  by (auto simp: get_def is_expired_def store_remove_def map_of_od_pop split: option.splits if_splits)


theorem get_ttl_witness:
  "get \<lparr> results = [(''q1'', \<lparr> data = (7::nat), created_at = 0, last_accessed = 0, size_bytes = 10 \<rparr>)],
         max_results = 50, ttl_minutes = 5, max_size_bytes = 100, total_size_bytes = 10 \<rparr>
       300000000 ''q1''
     = (Some 7, \<lparr> results = [(''q1'', \<lparr> data = 7, created_at = 0, last_accessed = 300000000, size_bytes = 10 \<rparr>)],
         max_results = 50, ttl_minutes = 5, max_size_bytes = 100, total_size_bytes = 10 \<rparr>) \<and>
   (300000000::int) - 0 \<le> minutes 5 \<and>
   (300000001::int) - 0 > minutes 5 \<and>
   get \<lparr> results = [(''q1'', \<lparr> data = (7::nat), created_at = 0, last_accessed = 0, size_bytes = 10 \<rparr>)],
         max_results = 50, ttl_minutes = 5, max_size_bytes = 100, total_size_bytes = 10 \<rparr>
       300000001 ''q1''
     = (None, \<lparr> results = [], max_results = 50, ttl_minutes = 5, max_size_bytes = 100,
                total_size_bytes = 0 \<rparr>)"
proof -
  let ?r = "\<lparr> data = (7::nat), created_at = 0, last_accessed = 0, size_bytes = 10 \<rparr>"
  let ?s = "\<lparr> results = [(''q1'', ?r)],
         max_results = 50, ttl_minutes = 5, max_size_bytes = 100, total_size_bytes = 10 \<rparr>"
  let ?s' = "\<lparr> results = [(''q1'', ?r \<lparr> last_accessed := 300000000 \<rparr>)],
         max_results = 50, ttl_minutes = 5, max_size_bytes = 100, total_size_bytes = 10 \<rparr>"
  have g: "get ?s 300000000 ''q1'' = (Some 7, ?s')"
    by (simp add: get_def is_expired_def minutes_def touch_def od_move_to_end_def od_pop_def)
  have m: "map_of (results ?s) ''q1'' = Some ?r" by simp
  have late: "(300000001::int) - created_at ?r > minutes (ttl_minutes ?s)"
    by (simp add: minutes_def)
  from get_ttl [of ?s 300000000 "''q1''" 7 ?s' ?r] g
  have a: "(300000000::int) - 0 \<le> minutes 5" by simp
  from get_ttl [of ?s 300000001 "''q1''" 7 ?s' ?r] m late
  have b: "get ?s 300000001 ''q1'' = (None, store_remove ?s ''q1'')" by blast
  have c: "store_remove ?s ''q1'' = \<lparr> results = [], max_results = 50, ttl_minutes = 5, max_size_bytes = 100,
                total_size_bytes = 0 \<rparr>"
    by (simp add: store_remove_def od_pop_def)
  from g a b c late show ?thesis by simp
qed


subsection \<open>Recency order\<close>








section \<open>Sessions and the session manager (services/session.py)\<close>

text \<open>
  A connection to the database is an external object; the model names it by a number.
  What the manager does to the outside is recorded, in order, in a trace: taking and
  releasing its lock (the \<open>with self._lock\<close> blocks), the liveness query sent over a
  connection by \<open>is_alive\<close>, and the calls of \<open>conn.close()\<close>.
\<close>

type_synonym connection = nat

datatype event = LockAcquire | LockRelease | Probe connection | ConnClose connection

record 'd SnowflakeSession =
  conn :: connection
  user :: string
  account :: string
  warehouse :: string
  database :: string
  schema :: string
  role :: "string option"
  session_created_at :: int
  last_used :: int
  query_count :: int
  query_results :: "'d QueryResultStore"

definition SnowflakeSession_init ::
  "connection \<Rightarrow> string \<Rightarrow> string \<Rightarrow> string \<Rightarrow> string \<Rightarrow> string \<Rightarrow> string option \<Rightarrow> int
     \<Rightarrow> 'd SnowflakeSession" where
  "SnowflakeSession_init c u a w db sc ro now =
     \<lparr> conn = c, user = u, account = a, warehouse = w, database = db, schema = sc, role = ro,
       session_created_at = now, last_used = now, query_count = 0,
       query_results = QueryResultStore_init MAX_QUERY_RESULTS_PER_SESSION
         QUERY_RESULT_TTL_MINUTES MAX_RESULT_SIZE_BYTES \<rparr>"

definition session_touch :: "'d SnowflakeSession \<Rightarrow> int \<Rightarrow> 'd SnowflakeSession" where
  "session_touch s now = s \<lparr> last_used := now, query_count := query_count s + 1 \<rparr>"

definition session_is_expired :: "'d SnowflakeSession \<Rightarrow> int \<Rightarrow> int \<Rightarrow> bool" where
  "session_is_expired s max_idle now \<longleftrightarrow> now - last_used s > minutes max_idle"

text \<open>
  \<open>is_alive\<close> runs \<open>SELECT 1\<close> on the connection and answers \<open>False\<close> on any exception.
  Whether the query succeeds is decided outside the program: \<open>alive\<close> is the state of
  the connections at the time of the call.
\<close>

definition is_alive ::
  "(connection \<Rightarrow> bool) \<Rightarrow> 'd SnowflakeSession \<Rightarrow> event list \<Rightarrow> bool \<times> event list" where
  "is_alive alive s tr = (alive (conn s), tr @ [Probe (conn s)])"

text \<open>
  \<open>close\<close> clears the results and calls \<open>conn.close()\<close>; an exception of the latter is
  swallowed, the call has been made either way.
\<close>

definition close ::
  "'d SnowflakeSession \<Rightarrow> event list \<Rightarrow> 'd SnowflakeSession \<times> event list" where
  "close s tr = (s \<lparr> query_results := clear (query_results s) \<rparr>, tr @ [ConnClose (conn s)])"

record 'd SessionManager =
  sessions :: "string \<rightharpoonup> 'd SnowflakeSession"
  max_idle_minutes :: int
  cleanup_interval :: int
  running :: bool
  trace :: "event list"

definition SessionManager_init :: "int \<Rightarrow> int \<Rightarrow> 'd SessionManager" where
  "SessionManager_init max_idle interval =
     \<lparr> sessions = Map.empty, max_idle_minutes = max_idle, cleanup_interval = interval,
       running = True, trace = [] \<rparr>"

definition lock_acquire :: "'d SessionManager \<Rightarrow> 'd SessionManager" where
  "lock_acquire m = m \<lparr> trace := trace m @ [LockAcquire] \<rparr>"

definition lock_release :: "'d SessionManager \<Rightarrow> 'd SessionManager" where
  "lock_release m = m \<lparr> trace := trace m @ [LockRelease] \<rparr>"

text \<open>\<open>create_session\<close>: the identifier is \<open>str(uuid4())\<close>, an input of the model.\<close>

definition create_session ::
  "'d SessionManager \<Rightarrow> string \<Rightarrow> 'd SnowflakeSession \<Rightarrow> string \<times> 'd SessionManager" where
  "create_session m session_id session =
     (let m1 = lock_acquire m;
          m2 = m1 \<lparr> sessions := (sessions m1)(session_id \<mapsto> session) \<rparr>
      in (session_id, lock_release m2))"

definition remove_session_unsafe ::
  "'d SessionManager \<Rightarrow> string \<Rightarrow> bool \<times> 'd SessionManager" where
  "remove_session_unsafe m session_id =
     (case sessions m session_id of
        None \<Rightarrow> (False, m)
      | Some session \<Rightarrow>
          (True, m \<lparr> sessions := (sessions m)(session_id := None),
                     trace := snd (close session (trace m)) \<rparr>))"

definition remove_session ::
  "'d SessionManager \<Rightarrow> string \<Rightarrow> bool \<times> 'd SessionManager" where
  "remove_session m session_id =
     (let (r, m1) = remove_session_unsafe (lock_acquire m) session_id
      in (r, lock_release m1))"

definition get_session ::
  "(connection \<Rightarrow> bool) \<Rightarrow> 'd SessionManager \<Rightarrow> int \<Rightarrow> string
     \<Rightarrow> 'd SnowflakeSession option \<times> 'd SessionManager" where
  "get_session alive m now session_id =
     (let m1 = lock_acquire m in
      case sessions m1 session_id of
        None \<Rightarrow> (None, lock_release m1)
      | Some session \<Rightarrow>
          if session_is_expired session (max_idle_minutes m1) now
          then (None, lock_release (snd (remove_session_unsafe m1 session_id)))
          else
            let (ok, tr) = is_alive alive session (trace m1);
                m2 = m1 \<lparr> trace := tr \<rparr>
            in if \<not> ok
               then (None, lock_release (snd (remove_session_unsafe m2 session_id)))
               else
                 let session' = session_touch session now
                 in (Some session',
                     lock_release (m2 \<lparr> sessions := (sessions m2)(session_id \<mapsto> session') \<rparr>)))"

text \<open>\<open>n\<close> calls of \<open>remove_session\<close> with the same identifier, one after the other.\<close>

fun remove_session_repeat ::
  "nat \<Rightarrow> 'd SessionManager \<Rightarrow> string \<Rightarrow> bool list \<times> 'd SessionManager" where
  "remove_session_repeat 0 m session_id = ([], m)"
| "remove_session_repeat (Suc n) m session_id =
     (let (r, m1) = remove_session m session_id;
          (rs, m2) = remove_session_repeat n m1 session_id
      in (r # rs, m2))"

definition close_count :: "connection \<Rightarrow> event list \<Rightarrow> nat" where
  "close_count c tr = count_list tr (ConnClose c)"

text \<open>
  The depth of the (re-entrant) lock along a trace; \<open>probes_unlocked d tr\<close> says that
  every liveness query of \<open>tr\<close>, started at depth \<open>d\<close>, is sent while the lock is free.
\<close>

fun probes_unlocked :: "nat \<Rightarrow> event list \<Rightarrow> bool" where
  "probes_unlocked d [] = True"
| "probes_unlocked d (LockAcquire # es) = probes_unlocked (Suc d) es"
| "probes_unlocked d (LockRelease # es) = probes_unlocked (d - 1) es"
| "probes_unlocked d (Probe c # es) = (d = 0 \<and> probes_unlocked d es)"
| "probes_unlocked d (ConnClose c # es) = probes_unlocked d es"

lemma remove_session_absent:
  "sessions m sid = None \<Longrightarrow>
   remove_session m sid = (False, m \<lparr> trace := trace m @ [LockAcquire, LockRelease] \<rparr>)"
  by (simp add: remove_session_def remove_session_unsafe_def lock_acquire_def lock_release_def)

lemma remove_session_present:
  "sessions m sid = Some s \<Longrightarrow>
   remove_session m sid =
     (True, m \<lparr> sessions := (sessions m)(sid := None),
                trace := trace m @ [LockAcquire, ConnClose (conn s), LockRelease] \<rparr>)"
  by (simp add: remove_session_def remove_session_unsafe_def lock_acquire_def lock_release_def
      close_def)

lemma remove_session_repeat_absent:
  "sessions m sid = None \<Longrightarrow>
   fst (remove_session_repeat n m sid) = replicate n False \<and>
   sessions (snd (remove_session_repeat n m sid)) = sessions m \<and>
   close_count c (trace (snd (remove_session_repeat n m sid))) = close_count c (trace m)"
proof (induction n arbitrary: m)
  case 0
  then show ?case by simp
next
  case (Suc n)
  let ?m1 = "m \<lparr> trace := trace m @ [LockAcquire, LockRelease] \<rparr>"
  have "sessions ?m1 sid = None" using Suc.prems by simp
  from Suc.IH [OF this] remove_session_absent [OF Suc.prems]
  show ?case by (simp add: split_beta close_count_def)
qed

text \<open>
  C3: \<open>remove_session\<close> is idempotent.  On an identifier that is absent, every one of
  \<open>n\<close> successive calls returns \<open>False\<close>, the registry is unchanged and no connection
  is closed.  On an identifier that is present, of \<open>n + 1\<close> successive calls the first
  returns \<open>True\<close> and all later ones \<open>False\<close>, the session is gone, and the
  connection of the session has been closed exactly once more than before the calls.
  (All calls take the manager's lock, so duplicate calls run one after the other.)
\<close>

theorem remove_session_idempotent:
  "(sessions m sid = None \<longrightarrow>
      fst (remove_session_repeat n m sid) = replicate n False \<and>
      sessions (snd (remove_session_repeat n m sid)) = sessions m \<and>
      close_count c (trace (snd (remove_session_repeat n m sid))) = close_count c (trace m)) \<and>
   (sessions m sid = Some s \<longrightarrow>
      fst (remove_session_repeat (Suc n) m sid) = True # replicate n False \<and>
      sessions (snd (remove_session_repeat (Suc n) m sid)) sid = None \<and>
      close_count (conn s) (trace (snd (remove_session_repeat (Suc n) m sid)))
        = close_count (conn s) (trace m) + 1)"
proof (intro conjI impI)
  assume a: "sessions m sid = None"
  from remove_session_repeat_absent [OF a, of n c]
  show "fst (remove_session_repeat n m sid) = replicate n False"
    and "sessions (snd (remove_session_repeat n m sid)) = sessions m"
    and "close_count c (trace (snd (remove_session_repeat n m sid))) = close_count c (trace m)"
    by simp_all
next
  assume p: "sessions m sid = Some s"
  let ?m1 = "m \<lparr> sessions := (sessions m)(sid := None),
                trace := trace m @ [LockAcquire, ConnClose (conn s), LockRelease] \<rparr>"
  have a: "sessions ?m1 sid = None" by simp
  note r = remove_session_repeat_absent [OF a, of n "conn s"]
  note q = remove_session_present [OF p]
  show "fst (remove_session_repeat (Suc n) m sid) = True # replicate n False"
    using r q by (simp add: split_beta)
  show "sessions (snd (remove_session_repeat (Suc n) m sid)) sid = None"
    using r q by (simp add: split_beta)
  show "close_count (conn s) (trace (snd (remove_session_repeat (Suc n) m sid)))
        = close_count (conn s) (trace m) + 1"
    using r q by (simp add: split_beta close_count_def)
qed

lemmas sm_ev = SessionManager_init_def SnowflakeSession_init_def create_session_def
  lock_acquire_def lock_release_def remove_session_def remove_session_unsafe_def close_def
  get_session_def is_alive_def session_is_expired_def session_touch_def minutes_def
  close_count_def Let_def

theorem remove_session_idempotent_witness:
  "sessions (SessionManager_init 30 60 :: int SessionManager) ''s1'' = None \<and>
   fst (remove_session_repeat (Suc (Suc 0)) (SessionManager_init 30 60 :: int SessionManager) ''s1'')
     = [False, False] \<and>
   sessions (snd (create_session (SessionManager_init 30 60 :: int SessionManager) ''s1''
       (SnowflakeSession_init 7 ''u'' ''a'' ''w'' ''db'' ''sc'' None 0))) ''s1''
     = Some (SnowflakeSession_init 7 ''u'' ''a'' ''w'' ''db'' ''sc'' None 0) \<and>
   fst (remove_session_repeat (Suc (Suc (Suc 0)))
       (snd (create_session (SessionManager_init 30 60 :: int SessionManager) ''s1''
         (SnowflakeSession_init 7 ''u'' ''a'' ''w'' ''db'' ''sc'' None 0))) ''s1'')
     = [True, False, False] \<and>
   close_count 7 (trace (snd (remove_session_repeat (Suc (Suc (Suc 0)))
       (snd (create_session (SessionManager_init 30 60 :: int SessionManager) ''s1''
         (SnowflakeSession_init 7 ''u'' ''a'' ''w'' ''db'' ''sc'' None 0))) ''s1''))) = 1"
proof -
  let ?m0 = "SessionManager_init 30 60 :: int SessionManager"
  let ?s = "SnowflakeSession_init 7 ''u'' ''a'' ''w'' ''db'' ''sc'' None 0 :: int SnowflakeSession"
  let ?m1 = "snd (create_session ?m0 ''s1'' ?s)"
  have a: "sessions ?m0 ''s1'' = None" by (simp add: SessionManager_init_def)
  have p: "sessions ?m1 ''s1'' = Some ?s"
    by (simp add: create_session_def lock_acquire_def lock_release_def Let_def)
  have c: "conn ?s = 7" by (simp add: SnowflakeSession_init_def)
  have t: "close_count 7 (trace ?m1) = 0"
    by (simp add: sm_ev)
  from remove_session_idempotent [of ?m0 "''s1''" "Suc (Suc 0)" 7 ?s] a
  have 1: "fst (remove_session_repeat (Suc (Suc 0)) ?m0 ''s1'') = [False, False]" by simp
  from remove_session_idempotent [of ?m1 "''s1''" "Suc (Suc 0)" 7 ?s] p c t
  have 2: "fst (remove_session_repeat (Suc (Suc (Suc 0))) ?m1 ''s1'') = [True, False, False]"
    and 3: "close_count 7 (trace (snd (remove_session_repeat (Suc (Suc (Suc 0))) ?m1 ''s1''))) = 1"
    by simp_all
  from a p 1 2 3 show ?thesis by blast
qed

lemma get_session_absent:
  "sessions m sid = None \<Longrightarrow> fst (get_session alive m now sid) = None"
  by (simp add: get_session_def lock_acquire_def Let_def)

text \<open>
  C4: for a registered session whose liveness probe fails, \<open>get_session\<close> returns
  nothing, removes the session and closes its connection once, and every later
  \<open>get_session\<close> of the identifier returns nothing too.  For a registered session
  whose probe succeeds and whose idle time has not run out, \<open>get_session\<close> returns
  the session with \<open>last_used\<close> set to the clock reading and \<open>query_count\<close> one
  higher, and the registry holds that updated session.
\<close>

theorem get_session_probe:
  assumes "sessions m sid = Some s"
  shows "(\<not> alive (conn s) \<longrightarrow>
      fst (get_session alive m now sid) = None \<and>
      sessions (snd (get_session alive m now sid)) sid = None \<and>
      close_count (conn s) (trace (snd (get_session alive m now sid)))
        = close_count (conn s) (trace m) + 1 \<and>
      fst (get_session alive' (snd (get_session alive m now sid)) now' sid) = None) \<and>
    (alive (conn s) \<longrightarrow> \<not> session_is_expired s (max_idle_minutes m) now \<longrightarrow>
      fst (get_session alive m now sid)
        = Some (s \<lparr> last_used := now, query_count := query_count s + 1 \<rparr>) \<and>
      sessions (snd (get_session alive m now sid)) sid
        = Some (s \<lparr> last_used := now, query_count := query_count s + 1 \<rparr>))"
proof (intro conjI impI)
  assume dead: "\<not> alive (conn s)"
  show n: "fst (get_session alive m now sid) = None"
    using assms dead by (simp add: sm_ev)
  show g: "sessions (snd (get_session alive m now sid)) sid = None"
    using assms dead by (simp add: sm_ev)
  show "close_count (conn s) (trace (snd (get_session alive m now sid)))
        = close_count (conn s) (trace m) + 1"
    using assms dead by (simp add: sm_ev)
  show "fst (get_session alive' (snd (get_session alive m now sid)) now' sid) = None"
    by (rule get_session_absent [OF g])
next
  assume "alive (conn s)" "\<not> session_is_expired s (max_idle_minutes m) now"
  then show "fst (get_session alive m now sid)
        = Some (s \<lparr> last_used := now, query_count := query_count s + 1 \<rparr>)"
    and "sessions (snd (get_session alive m now sid)) sid
        = Some (s \<lparr> last_used := now, query_count := query_count s + 1 \<rparr>)"
    using assms by (simp_all add: sm_ev)
qed

theorem get_session_probe_witness:
  "fst (get_session (\<lambda>c. False)
       (snd (create_session (SessionManager_init 30 60 :: int SessionManager) ''s1''
         (SnowflakeSession_init 7 ''u'' ''a'' ''w'' ''db'' ''sc'' None 0))) 5 ''s1'') = None \<and>
   close_count 7 (trace (snd (get_session (\<lambda>c. False)
       (snd (create_session (SessionManager_init 30 60 :: int SessionManager) ''s1''
         (SnowflakeSession_init 7 ''u'' ''a'' ''w'' ''db'' ''sc'' None 0))) 5 ''s1''))) = 1 \<and>
   fst (get_session (\<lambda>c. True)
       (snd (create_session (SessionManager_init 30 60 :: int SessionManager) ''s1''
         (SnowflakeSession_init 7 ''u'' ''a'' ''w'' ''db'' ''sc'' None 0))) 5 ''s1'')
     = Some ((SnowflakeSession_init 7 ''u'' ''a'' ''w'' ''db'' ''sc'' None 0)
          \<lparr> last_used := 5, query_count := 1 \<rparr>)"
proof -
  let ?m0 = "SessionManager_init 30 60 :: int SessionManager"
  let ?s = "SnowflakeSession_init 7 ''u'' ''a'' ''w'' ''db'' ''sc'' None 0 :: int SnowflakeSession"
  let ?m1 = "snd (create_session ?m0 ''s1'' ?s)"
  have p: "sessions ?m1 ''s1'' = Some ?s"
    by (simp add: create_session_def lock_acquire_def lock_release_def Let_def)
  have c: "conn ?s = 7" "query_count ?s = 0" by (simp_all add: SnowflakeSession_init_def)
  have t: "close_count 7 (trace ?m1) = 0" by (simp add: sm_ev)
  have e: "\<not> session_is_expired ?s (max_idle_minutes ?m1) 5"
    by (simp add: sm_ev)
  from get_session_probe [OF p, of "\<lambda>c. False" 5 "\<lambda>c. False" 5] c t
  have 1: "fst (get_session (\<lambda>c. False) ?m1 5 ''s1'') = None"
    and 2: "close_count 7 (trace (snd (get_session (\<lambda>c. False) ?m1 5 ''s1''))) = 1"
    by simp_all
  from get_session_probe [OF p, of "\<lambda>c. True" 5 "\<lambda>c. True" 5] c e
  have 3: "fst (get_session (\<lambda>c. True) ?m1 5 ''s1'') = Some (?s \<lparr> last_used := 5, query_count := 1 \<rparr>)"
    by simp
  from 1 2 3 show ?thesis by blast
qed

text \<open>
  C8 (as stated, refuted): the claim says that \<open>get_session\<close> sends the liveness
  probe outside the manager's lock and takes the lock again only to apply the outcome.
  The whole body of \<open>get_session\<close> is one \<open>with self._lock\<close> block: on a manager
  with one live session the call takes the lock, probes connection 7, and releases the
  lock, so the probe is sent while the lock is held.
\<close>

theorem probe_inside_lock_counterexample:
  "trace (snd (get_session (\<lambda>c. True)
       (snd (create_session (SessionManager_init 30 60 :: int SessionManager) ''s1''
         (SnowflakeSession_init 7 ''u'' ''a'' ''w'' ''db'' ''sc'' None 0))) 5 ''s1''))
     = [LockAcquire, LockRelease, LockAcquire, Probe 7, LockRelease] \<and>
   \<not> probes_unlocked 0 (trace (snd (get_session (\<lambda>c. True)
       (snd (create_session (SessionManager_init 30 60 :: int SessionManager) ''s1''
         (SnowflakeSession_init 7 ''u'' ''a'' ''w'' ''db'' ''sc'' None 0))) 5 ''s1'')))"
  by (simp add: sm_ev)

text \<open>
  C8 (amended): for a registered session whose idle time has not run out,
  \<open>get_session\<close> takes the manager's lock once, sends the liveness probe while it
  holds the lock, applies the outcome (closing the connection when the probe failed)
  still under the lock, and releases the lock last.
\<close>

theorem get_session_probe_under_lock:
  assumes "sessions m sid = Some s" and "\<not> session_is_expired s (max_idle_minutes m) now"
  shows "trace (snd (get_session alive m now sid))
       = trace m @ LockAcquire # Probe (conn s)
           # (if alive (conn s) then [] else [ConnClose (conn s)]) @ [LockRelease] \<and>
     \<not> probes_unlocked d (LockAcquire # Probe (conn s)
           # (if alive (conn s) then [] else [ConnClose (conn s)]) @ [LockRelease])"
  using assms by (simp add: sm_ev)

theorem get_session_probe_under_lock_witness:
  "trace (snd (get_session (\<lambda>c. False)
       (snd (create_session (SessionManager_init 30 60 :: int SessionManager) ''s1''
         (SnowflakeSession_init 7 ''u'' ''a'' ''w'' ''db'' ''sc'' None 0))) 5 ''s1''))
     = [LockAcquire, LockRelease, LockAcquire, Probe 7, ConnClose 7, LockRelease]"
proof -
  let ?m0 = "SessionManager_init 30 60 :: int SessionManager"
  let ?s = "SnowflakeSession_init 7 ''u'' ''a'' ''w'' ''db'' ''sc'' None 0 :: int SnowflakeSession"
  let ?m1 = "snd (create_session ?m0 ''s1'' ?s)"
  have p: "sessions ?m1 ''s1'' = Some ?s"
    by (simp add: create_session_def lock_acquire_def lock_release_def Let_def)
  have c: "conn ?s = 7" by (simp add: SnowflakeSession_init_def)
  have t: "trace ?m1 = [LockAcquire, LockRelease]" by (simp add: sm_ev)
  have e: "\<not> session_is_expired ?s (max_idle_minutes ?m1) 5"
    by (simp add: sm_ev)
  from get_session_probe_under_lock [OF p e, of "\<lambda>c. False" 0] c t
  show ?thesis by simp
qed

section \<open>The rate limiter of connection attempts (routers/connection.py)\<close>

text \<open>
  \<open>time.time()\<close> is a number of seconds; the model takes it as a real number.
  \<open>int(x)\<close> truncates towards zero.  The table of attempts is a
  \<open>defaultdict(list)\<close>: every key has a list, empty until the first attempt.
  \<open>self._attempts[client_ip][0]\<close> raises \<open>IndexError\<close> on an empty list, which a
  limiter with \<open>max_attempts \<le> 0\<close> reaches.
\<close>

datatype error = IndexError

definition py_int :: "real \<Rightarrow> int" where
  "py_int x = (if 0 \<le> x then \<lfloor>x\<rfloor> else \<lceil>x\<rceil>)"

record RateLimiter =
  attempts :: "string \<Rightarrow> real list"
  max_attempts :: int
  window_seconds :: int

definition RateLimiter_init :: "int \<Rightarrow> int \<Rightarrow> RateLimiter" where
  "RateLimiter_init ma ws = \<lparr> attempts = (\<lambda>ip. []), max_attempts = ma, window_seconds = ws \<rparr>"

definition connect_rate_limiter :: RateLimiter where
  "connect_rate_limiter = RateLimiter_init 5 60"

definition is_allowed ::
  "RateLimiter \<Rightarrow> real \<Rightarrow> string \<Rightarrow> (error + bool \<times> int) \<times> RateLimiter" where
  "is_allowed rl now client_ip =
     (let recent = filter (\<lambda>t. now - t < real_of_int (window_seconds rl))
                     (attempts rl client_ip);
          rl1 = rl \<lparr> attempts := (attempts rl)(client_ip := recent) \<rparr>
      in if int (length recent) \<ge> max_attempts rl
         then (case recent of
                 [] \<Rightarrow> (Inl IndexError, rl1)
               | oldest # later \<Rightarrow>
                   (Inr (False, py_int (real_of_int (window_seconds rl) - (now - oldest)) + 1),
                    rl1))
         else (Inr (True, 0), rl1 \<lparr> attempts := (attempts rl1)(client_ip := recent @ [now]) \<rparr>))"

text \<open>A sequence of calls, each with its clock reading and key.\<close>

fun calls ::
  "RateLimiter \<Rightarrow> (real \<times> string) list \<Rightarrow> (error + bool \<times> int) list \<times> RateLimiter" where
  "calls rl [] = ([], rl)"
| "calls rl ((now, ip) # cs) =
     (let (r, rl1) = is_allowed rl now ip;
          (rs, rl2) = calls rl1 cs
      in (r # rs, rl2))"

definition denied :: "error + bool \<times> int \<Rightarrow> bool" where
  "denied r = (case r of Inl e \<Rightarrow> False | Inr (ok, n) \<Rightarrow> \<not> ok)"

lemma is_allowed_fields [simp]:
  "max_attempts (snd (is_allowed rl now k)) = max_attempts rl"
  "window_seconds (snd (is_allowed rl now k)) = window_seconds rl"
  by (simp_all add: is_allowed_def Let_def split: list.split)

lemma is_allowed_allow:
  assumes "\<forall>t \<in> set (attempts rl k). now - t < real_of_int (window_seconds rl)"
    and "int (length (attempts rl k)) < max_attempts rl"
  shows "is_allowed rl now k
     = (Inr (True, 0), rl \<lparr> attempts := (attempts rl)(k := attempts rl k @ [now]) \<rparr>)"
proof -
  from assms(1)
  have "filter (\<lambda>t. now - t < real_of_int (window_seconds rl)) (attempts rl k) = attempts rl k"
    by (intro filter_True) auto
  with assms(2) show ?thesis by (simp add: is_allowed_def Let_def)
qed

lemma is_allowed_deny:
  assumes "\<forall>t \<in> set (attempts rl k). now - t < real_of_int (window_seconds rl)"
    and "attempts rl k = a # as"
    and "int (length (attempts rl k)) \<ge> max_attempts rl"
  shows "is_allowed rl now k
     = (Inr (False, py_int (real_of_int (window_seconds rl) - (now - a)) + 1), rl)"
proof -
  from assms(1)
  have f: "filter (\<lambda>t. now - t < real_of_int (window_seconds rl)) (attempts rl k) = attempts rl k"
    by (intro filter_True) auto
  have u: "rl \<lparr> attempts := (attempts rl)(k := attempts rl k) \<rparr> = rl" by simp
  show ?thesis
    unfolding is_allowed_def Let_def f u using assms(2,3) by simp
qed

lemma is_allowed_room:
  assumes "int (length (filter (\<lambda>t. now - t < real_of_int (window_seconds rl))
                 (attempts rl k))) < max_attempts rl"
  shows "fst (is_allowed rl now k) = Inr (True, 0)"
  using assms by (simp add: is_allowed_def Let_def)

text \<open>
  C6: with \<open>max_attempts = 5\<close> and \<open>window_seconds = 60\<close>, five calls for a key without
  earlier attempts, made within one second, are all allowed; a sixth call inside the
  window of the first is denied with the retry time \<open>int(60 - (now - oldest)) + 1\<close>,
  which is at least 1 and at most 61, and 60 or 61 when the sixth call too falls within
  the first second; a call made 60 seconds or more after the first is allowed again.
\<close>

theorem rate_limiter_window:
  assumes e: "attempts rl k = []" and ma: "max_attempts rl = 5" and ws: "window_seconds rl = 60"
    and o: "t1 \<le> t2" "t2 \<le> t3" "t3 \<le> t4" "t4 \<le> t5" "t5 \<le> t6"
    and sec: "t5 - t1 \<le> 1" and w6: "t6 - t1 < 60" and w7: "t7 - t1 \<ge> 60"
  shows "fst (calls rl [(t1, k), (t2, k), (t3, k), (t4, k), (t5, k), (t6, k), (t7, k)])
       = [Inr (True, 0), Inr (True, 0), Inr (True, 0), Inr (True, 0), Inr (True, 0),
          Inr (False, \<lfloor>60 - (t6 - t1)\<rfloor> + 1), Inr (True, 0)] \<and>
     1 \<le> \<lfloor>60 - (t6 - t1)\<rfloor> + 1 \<and> \<lfloor>60 - (t6 - t1)\<rfloor> + 1 \<le> 61 \<and>
     (t6 - t1 \<le> 1 \<longrightarrow> 60 \<le> \<lfloor>60 - (t6 - t1)\<rfloor> + 1)"
proof -
  define l1 where "l1 = rl \<lparr> attempts := (attempts rl)(k := [t1]) \<rparr>"
  define l2 where "l2 = rl \<lparr> attempts := (attempts rl)(k := [t1, t2]) \<rparr>"
  define l3 where "l3 = rl \<lparr> attempts := (attempts rl)(k := [t1, t2, t3]) \<rparr>"
  define l4 where "l4 = rl \<lparr> attempts := (attempts rl)(k := [t1, t2, t3, t4]) \<rparr>"
  define l5 where "l5 = rl \<lparr> attempts := (attempts rl)(k := [t1, t2, t3, t4, t5]) \<rparr>"
  have c1: "is_allowed rl t1 k = (Inr (True, 0), l1)"
    using is_allowed_allow [of rl k t1] e ma by (simp add: l1_def)
  have c2: "is_allowed l1 t2 k = (Inr (True, 0), l2)"
    using is_allowed_allow [of l1 k t2] ma ws o sec by (simp add: l1_def l2_def)
  have c3: "is_allowed l2 t3 k = (Inr (True, 0), l3)"
    using is_allowed_allow [of l2 k t3] ma ws o sec by (simp add: l2_def l3_def)
  have c4: "is_allowed l3 t4 k = (Inr (True, 0), l4)"
    using is_allowed_allow [of l3 k t4] ma ws o sec by (simp add: l3_def l4_def)
  have c5: "is_allowed l4 t5 k = (Inr (True, 0), l5)"
    using is_allowed_allow [of l4 k t5] ma ws o sec by (simp add: l4_def l5_def)
  have nonneg: "0 \<le> 60 - (t6 - t1)" using w6 by simp
  have c6: "is_allowed l5 t6 k = (Inr (False, \<lfloor>60 - (t6 - t1)\<rfloor> + 1), l5)"
    using is_allowed_deny [of l5 k t6 t1 "[t2, t3, t4, t5]"] ma ws o w6 nonneg
    by (simp add: l5_def py_int_def)
  have "filter (\<lambda>t. t7 - t < real_of_int (window_seconds l5)) (attempts l5 k)
      = filter (\<lambda>t. t7 - t < 60) [t2, t3, t4, t5]"
    using w7 ws by (simp add: l5_def)
  moreover have "length (filter (\<lambda>t. t7 - t < 60) [t2, t3, t4, t5]) \<le> 4"
    using length_filter_le [of "\<lambda>t. t7 - t < 60" "[t2, t3, t4, t5]"] by simp
  ultimately have c7: "fst (is_allowed l5 t7 k) = Inr (True, 0)"
    using ma by (intro is_allowed_room) (simp add: l5_def)
  have r: "fst (calls rl [(t1, k), (t2, k), (t3, k), (t4, k), (t5, k), (t6, k), (t7, k)])
       = [Inr (True, 0), Inr (True, 0), Inr (True, 0), Inr (True, 0), Inr (True, 0),
          Inr (False, \<lfloor>60 - (t6 - t1)\<rfloor> + 1), Inr (True, 0)]"
    using c1 c2 c3 c4 c5 c6 c7 by (simp add: split_beta)
  have lo: "1 \<le> \<lfloor>60 - (t6 - t1)\<rfloor> + 1" using nonneg by simp
  have "t1 \<le> t6" using o by simp
  then have "60 - (t6 - t1) \<le> 60" by simp
  then have "\<lfloor>60 - (t6 - t1)\<rfloor> \<le> 60" by (simp add: floor_le_iff)
  then have hi: "\<lfloor>60 - (t6 - t1)\<rfloor> + 1 \<le> 61" by simp
  have near: "60 \<le> \<lfloor>60 - (t6 - t1)\<rfloor> + 1" if "t6 - t1 \<le> 1"
  proof -
    from that have "59 \<le> 60 - (t6 - t1)" by simp
    then have "59 \<le> \<lfloor>60 - (t6 - t1)\<rfloor>" by (simp add: le_floor_iff)
    then show ?thesis by simp
  qed
  from r lo hi near show ?thesis by blast
qed

lemmas rl_ev = is_allowed_def Let_def py_int_def connect_rate_limiter_def RateLimiter_init_def
  denied_def split_beta

theorem rate_limiter_window_witness:
  "fst (calls connect_rate_limiter
      [(0, ''10.0.0.1''), (1/5, ''10.0.0.1''), (2/5, ''10.0.0.1''), (3/5, ''10.0.0.1''),
       (4/5, ''10.0.0.1''), (1, ''10.0.0.1''), (61, ''10.0.0.1'')])
     = [Inr (True, 0), Inr (True, 0), Inr (True, 0), Inr (True, 0), Inr (True, 0),
        Inr (False, 60), Inr (True, 0)]"
  using rate_limiter_window [of connect_rate_limiter "''10.0.0.1''" 0 "1/5" "2/5" "3/5" "4/5" 1 61]
  by (simp add: connect_rate_limiter_def RateLimiter_init_def)

lemma is_allowed_bound:
  assumes b: "int (length (attempts rl k')) \<le> max_attempts rl"
  shows "int (length (attempts (snd (is_allowed rl now k)) k')) \<le> max_attempts rl"
proof -
  define recent where
    "recent = filter (\<lambda>t. now - t < real_of_int (window_seconds rl)) (attempts rl k)"
  have l: "length recent \<le> length (attempts rl k)" by (simp add: recent_def)
  show ?thesis
  proof (cases "int (length recent) \<ge> max_attempts rl")
    case True
    then have "attempts (snd (is_allowed rl now k)) = (attempts rl)(k := recent)"
      by (simp add: is_allowed_def Let_def recent_def [symmetric] split: list.split)
    with b l show ?thesis by (cases "k' = k") auto
  next
    case False
    then have "attempts (snd (is_allowed rl now k)) = (attempts rl)(k := recent @ [now])"
      by (simp add: is_allowed_def Let_def recent_def [symmetric])
    with b False show ?thesis by (cases "k' = k") auto
  qed
qed

lemma denied_step:
  "denied (fst (is_allowed rl now k)) \<Longrightarrow>
   snd (is_allowed rl now k)
     = rl \<lparr> attempts := (attempts rl)
          (k := filter (\<lambda>t. now - t < real_of_int (window_seconds rl)) (attempts rl k)) \<rparr>"
  by (auto simp: is_allowed_def Let_def denied_def split: list.splits if_splits)

lemma denied_calls:
  "\<forall>r \<in> set (fst (calls rl (map (\<lambda>t. (t, k)) ts))). denied r \<Longrightarrow>
   \<exists>P. snd (calls rl (map (\<lambda>t. (t, k)) ts))
          = rl \<lparr> attempts := (attempts rl)(k := filter P (attempts rl k)) \<rparr>"
proof (induction ts arbitrary: rl)
  case Nil
  have "rl = rl \<lparr> attempts := (attempts rl)(k := filter (\<lambda>t. True) (attempts rl k)) \<rparr>"
    by simp
  then show ?case by (simp only: list.map calls.simps snd_conv) (rule exI)
next
  case (Cons t ts)
  define W where "W = (\<lambda>u. t - u < real_of_int (window_seconds rl))"
  define rl1 where "rl1 = rl \<lparr> attempts := (attempts rl)(k := filter W (attempts rl k)) \<rparr>"
  from Cons.prems have d: "denied (fst (is_allowed rl t k))" by (simp add: split_beta)
  from denied_step [OF d] have s: "snd (is_allowed rl t k) = rl1" by (simp add: rl1_def W_def)
  from Cons.prems s
  have "\<forall>r \<in> set (fst (calls rl1 (map (\<lambda>t. (t, k)) ts))). denied r" by (simp add: split_beta)
  from Cons.IH [OF this] obtain P where
    P: "snd (calls rl1 (map (\<lambda>t. (t, k)) ts))
          = rl1 \<lparr> attempts := (attempts rl1)(k := filter P (attempts rl1 k)) \<rparr>" ..
  have "snd (calls rl (map (\<lambda>t. (t, k)) (t # ts)))
      = rl \<lparr> attempts := (attempts rl)(k := filter (\<lambda>u. W u \<and> P u) (attempts rl k)) \<rparr>"
    using P s by (simp add: split_beta rl1_def conj_commute)
  then show ?case by (rule exI [of _ "\<lambda>u. W u \<and> P u"])
qed

text \<open>
  C10: a denied call leaves the attempts of its key as the old list pruned to the
  window, without the current time, and leaves all other keys alone.  Hence denied
  calls do not prolong the denial: when the list of a key holds at most
  \<open>max_attempts\<close> times, the oldest being \<open>a\<close>, then after any number of denied calls
  for the key a call at a time when \<open>a\<close> has left the window is allowed.
\<close>

theorem denied_attempt_not_recorded:
  "(denied (fst (is_allowed rl now k)) \<longrightarrow>
      attempts (snd (is_allowed rl now k))
        = (attempts rl)(k := filter (\<lambda>t. now - t < real_of_int (window_seconds rl))
                               (attempts rl k))) \<and>
   (attempts rl k = a # as \<longrightarrow> int (length (a # as)) \<le> max_attempts rl \<longrightarrow>
    (\<forall>r \<in> set (fst (calls rl (map (\<lambda>t. (t, k)) ts))). denied r) \<longrightarrow>
    real_of_int (window_seconds rl) \<le> now - a \<longrightarrow>
      fst (is_allowed (snd (calls rl (map (\<lambda>t. (t, k)) ts))) now k) = Inr (True, 0))"
proof (intro conjI impI)
  assume "denied (fst (is_allowed rl now k))"
  from denied_step [OF this]
  show "attempts (snd (is_allowed rl now k))
        = (attempts rl)(k := filter (\<lambda>t. now - t < real_of_int (window_seconds rl))
                               (attempts rl k))"
    by simp
next
  assume a: "attempts rl k = a # as" and b: "int (length (a # as)) \<le> max_attempts rl"
    and d: "\<forall>r \<in> set (fst (calls rl (map (\<lambda>t. (t, k)) ts))). denied r"
    and old: "real_of_int (window_seconds rl) \<le> now - a"
  from denied_calls [OF d] obtain P where
    P: "snd (calls rl (map (\<lambda>t. (t, k)) ts))
          = rl \<lparr> attempts := (attempts rl)(k := filter P (attempts rl k)) \<rparr>" ..
  let ?rl' = "snd (calls rl (map (\<lambda>t. (t, k)) ts))"
  let ?W = "\<lambda>t. now - t < real_of_int (window_seconds rl)"
  let ?Q = "\<lambda>t. P t \<and> ?W t"
  have f: "filter (\<lambda>t. now - t < real_of_int (window_seconds ?rl')) (attempts ?rl' k)
      = filter ?Q as"
    using a old by (simp add: P)
  have "length (filter ?Q as) \<le> length as" by (rule length_filter_le)
  then have le: "int (length (filter ?Q as)) \<le> int (length as)" by (simp only: of_nat_le_iff)
  have m: "max_attempts ?rl' = max_attempts rl" by (simp add: P)
  from b have b': "1 + int (length as) \<le> max_attempts rl" by simp
  have "int (length (filter (\<lambda>t. now - t < real_of_int (window_seconds ?rl'))
      (attempts ?rl' k))) < max_attempts ?rl'"
    unfolding f m using le b' by linarith
  then show "fst (is_allowed ?rl' now k) = Inr (True, 0)" by (rule is_allowed_room)
qed

theorem denied_attempt_not_recorded_witness:
  "fst (calls \<lparr> attempts = (\<lambda>ip. [])(''10.0.0.1'' := [0, 1, 2, 3, 4]), max_attempts = 5,
               window_seconds = 60 \<rparr>
      [(10, ''10.0.0.1''), (30, ''10.0.0.1''), (59, ''10.0.0.1'')])
     = [Inr (False, 51), Inr (False, 31), Inr (False, 2)] \<and>
   attempts (snd (is_allowed \<lparr> attempts = (\<lambda>ip. [])(''10.0.0.1'' := [0, 1, 2, 3, 4]),
               max_attempts = 5, window_seconds = 60 \<rparr> 10 ''10.0.0.1'')) ''10.0.0.1''
     = [0, 1, 2, 3, 4] \<and>
   fst (is_allowed (snd (calls \<lparr> attempts = (\<lambda>ip. [])(''10.0.0.1'' := [0, 1, 2, 3, 4]),
               max_attempts = 5, window_seconds = 60 \<rparr>
      [(10, ''10.0.0.1''), (30, ''10.0.0.1''), (59, ''10.0.0.1'')])) 60 ''10.0.0.1'')
     = Inr (True, 0)"
proof -
  let ?k = "''10.0.0.1''"
  let ?rl = "\<lparr> attempts = (\<lambda>ip. [])(?k := [0, 1, 2, 3, 4]), max_attempts = 5,
               window_seconds = 60 \<rparr>"
  have r: "fst (calls ?rl [(10, ?k), (30, ?k), (59, ?k)])
     = [Inr (False, 51), Inr (False, 31), Inr (False, 2)]"
    by (simp add: rl_ev)
  have d1: "denied (fst (is_allowed ?rl 10 ?k))" by (simp add: rl_ev)
  have d: "\<forall>r \<in> set (fst (calls ?rl (map (\<lambda>t. (t, ?k)) [10, 30, 59]))). denied r"
    using r by (simp add: denied_def)
  have a: "attempts ?rl ?k = 0 # [1, 2, 3, 4]" by simp
  note th = denied_attempt_not_recorded [of ?rl _ ?k 0 "[1, 2, 3, 4]" "[10, 30, 59]"]
  from th [of 10] d1 have 1: "attempts (snd (is_allowed ?rl 10 ?k)) ?k = [0, 1, 2, 3, 4]"
    by simp
  from th [of 60] a d have 2: "fst (is_allowed (snd (calls ?rl [(10, ?k), (30, ?k), (59, ?k)])) 60 ?k)
     = Inr (True, 0)"
    by simp
  from r 1 2 show ?thesis by blast
qed

section \<open>The caches of the discovered configuration\<close>

text \<open>
  The repository has two caches named \<open>SYSTEM_CONFIG_CACHE\<close>.  The router
  (routers/system.py) keeps a \<open>SystemConfigCache\<close>: a plain dictionary from session
  identifier to the configuration and the time it was stored, read with a time to live
  of \<open>CONFIG_CACHE_TTL_SECONDS\<close>.  Times are readings of \<open>time.time()\<close>, real numbers
  of seconds.
\<close>

definition CONFIG_CACHE_TTL_SECONDS :: int where
  "CONFIG_CACHE_TTL_SECONDS = 900"

record 'c CachedConfig =
  config :: 'c
  cached_at :: real

definition CachedConfig_init :: "'c \<Rightarrow> real \<Rightarrow> 'c CachedConfig" where
  "CachedConfig_init cfg now = \<lparr> config = cfg, cached_at = now \<rparr>"

definition cached_is_expired :: "'c CachedConfig \<Rightarrow> int \<Rightarrow> real \<Rightarrow> bool" where
  "cached_is_expired e ttl now \<longleftrightarrow> now - cached_at e > real_of_int ttl"

record 'c SystemConfigCache =
  cache :: "string \<rightharpoonup> 'c CachedConfig"
  ttl_seconds :: int

definition SystemConfigCache_init :: "int \<Rightarrow> 'c SystemConfigCache" where
  "SystemConfigCache_init ttl = \<lparr> cache = Map.empty, ttl_seconds = ttl \<rparr>"

definition SYSTEM_CONFIG_CACHE :: "'c SystemConfigCache" where
  "SYSTEM_CONFIG_CACHE = SystemConfigCache_init CONFIG_CACHE_TTL_SECONDS"

definition cache_get ::
  "'c SystemConfigCache \<Rightarrow> real \<Rightarrow> string \<Rightarrow> 'c option \<times> 'c SystemConfigCache" where
  "cache_get c now session_id =
     (case cache c session_id of
        None \<Rightarrow> (None, c)
      | Some entry \<Rightarrow>
          if cached_is_expired entry (ttl_seconds c) now
          then (None, c \<lparr> cache := (cache c)(session_id := None) \<rparr>)
          else (Some (config entry), c))"

definition cache_put :: "'c SystemConfigCache \<Rightarrow> real \<Rightarrow> string \<Rightarrow> 'c \<Rightarrow> 'c SystemConfigCache"
  where
  "cache_put c now session_id cfg =
     c \<lparr> cache := (cache c)(session_id \<mapsto> CachedConfig_init cfg now) \<rparr>"

definition invalidate :: "'c SystemConfigCache \<Rightarrow> string \<Rightarrow> bool \<times> 'c SystemConfigCache" where
  "invalidate c session_id =
     (if session_id \<in> dom (cache c)
      then (True, c \<lparr> cache := (cache c)(session_id := None) \<rparr>) else (False, c))"

text \<open>
  The discovery service (services/system_config.py) keeps a
  \<open>cachetools.TTLCache(maxsize=100, ttl=300)\<close>; the class is a third-party library,
  the model records the two arguments of the constructor (the time to live in seconds).
\<close>

record TTLCache_args =
  maxsize :: int
  ttl :: int

definition service_SYSTEM_CONFIG_CACHE :: TTLCache_args where
  "service_SYSTEM_CONFIG_CACHE = \<lparr> maxsize = 100, ttl = 300 \<rparr>"

text \<open>Puts of one configuration under a list of session identifiers, at one time.\<close>

definition cache_puts ::
  "'c SystemConfigCache \<Rightarrow> real \<Rightarrow> string list \<Rightarrow> 'c \<Rightarrow> 'c SystemConfigCache" where
  "cache_puts c now sids cfg = fold (\<lambda>sid c'. cache_put c' now sid cfg) sids c"

lemma dom_cache_puts: "dom (cache (cache_puts c now sids cfg)) = dom (cache c) \<union> set sids"
  unfolding cache_puts_def
  by (induction sids arbitrary: c) (auto simp: cache_put_def)

lemma distinct_replicate_keys: "distinct (map (\<lambda>n. replicate n x) [0..<m])"
proof -
  have "inj (\<lambda>n. replicate n x)"
    by (rule injI) (metis length_replicate)
  then show ?thesis by (simp add: distinct_map inj_on_def)
qed

text \<open>
  C7 (as stated, refuted): the claim gives the configuration cache a time to live of 15
  minutes and a cap of 10000 entries.  The cache of the discovery service is
  \<open>TTLCache(maxsize=100, ttl=300)\<close>: 5 minutes and 100 entries.  The cache of the
  router has the time to live of 15 minutes but no cap at all: 10001 puts under
  distinct identifiers leave 10001 entries.
\<close>

theorem config_cache_counterexample:
  "\<not> (ttl service_SYSTEM_CONFIG_CACHE = 15 * 60 \<and> maxsize service_SYSTEM_CONFIG_CACHE = 10000) \<and>
   card (dom (cache (cache_puts (SYSTEM_CONFIG_CACHE :: nat SystemConfigCache) 0
           (map (\<lambda>n. replicate n CHR ''a'') [0..<10001]) 0))) = 10001"
proof -
  have "card (set (map (\<lambda>n. replicate n CHR ''a'') [0..<10001])) = 10001"
    using distinct_card [OF distinct_replicate_keys [of "CHR ''a''" 10001]] by simp
  then show ?thesis
    by (simp add: dom_cache_puts SYSTEM_CONFIG_CACHE_def SystemConfigCache_init_def
        service_SYSTEM_CONFIG_CACHE_def)
qed

text \<open>
  C7 (amended): the router's configuration cache is keyed by the session identifier and
  has a time to live of 900 seconds (15 minutes); the cache of the discovery service has
  a time to live of 300 seconds and a cap of 100 entries.  A put in the router's cache
  always overwrites: a get of the same identifier within the time to live returns the
  configuration just put, whatever was stored before; a put never removes the entry
  of another identifier (there is no cap), and it leaves the time to live alone.
\<close>

theorem config_cache_put_overwrites:
  "ttl_seconds (SYSTEM_CONFIG_CACHE :: 'c SystemConfigCache) = 15 * 60 \<and>
   ttl service_SYSTEM_CONFIG_CACHE = 5 * 60 \<and> maxsize service_SYSTEM_CONFIG_CACHE = 100 \<and>
   (now' - now \<le> real_of_int (ttl_seconds (c :: 'c SystemConfigCache)) \<longrightarrow>
      fst (cache_get (cache_put c now sid cfg) now' sid) = Some cfg) \<and>
   (sid' \<noteq> sid \<longrightarrow> cache (cache_put c now sid cfg) sid' = cache c sid') \<and>
   ttl_seconds (cache_put c now sid cfg) = ttl_seconds c"
  by (simp add: SYSTEM_CONFIG_CACHE_def SystemConfigCache_init_def CONFIG_CACHE_TTL_SECONDS_def
      service_SYSTEM_CONFIG_CACHE_def cache_get_def cache_put_def cached_is_expired_def
      CachedConfig_init_def)

theorem config_cache_put_overwrites_witness:
  "fst (cache_get (cache_put (cache_put (SYSTEM_CONFIG_CACHE :: nat SystemConfigCache) 0 ''s1'' 1)
          10 ''s1'' 2) 910 ''s1'') = Some 2 \<and>
   cache (cache_put (cache_put (SYSTEM_CONFIG_CACHE :: nat SystemConfigCache) 0 ''s1'' 1)
          10 ''s2'' 2) ''s1''
     = Some (CachedConfig_init 1 0)"
proof -
  let ?c = "cache_put (SYSTEM_CONFIG_CACHE :: nat SystemConfigCache) 0 ''s1'' 1"
  have t: "ttl_seconds ?c = 900"
    by (simp add: cache_put_def SYSTEM_CONFIG_CACHE_def SystemConfigCache_init_def
        CONFIG_CACHE_TTL_SECONDS_def)
  have o: "cache ?c ''s1'' = Some (CachedConfig_init 1 0)" by (simp add: cache_put_def)
  from config_cache_put_overwrites [where now' = 910 and now = 10 and c = ?c and sid = "''s1''"
      and sid' = "''s1''" and cfg = 2] t
  have 1: "fst (cache_get (cache_put ?c 10 ''s1'' 2) 910 ''s1'') = Some 2" by simp
  from config_cache_put_overwrites [where now' = 910 and now = 10 and c = ?c and sid = "''s2''"
      and sid' = "''s1''" and cfg = 2] o
  have 2: "cache (cache_put ?c 10 ''s2'' 2) ''s1'' = Some (CachedConfig_init 1 0)" by simp
  from 1 2 show ?thesis by blast
qed

end
